theory Spec2Isabelle
  imports Main "HOL-Library.Word" "HOL-Library.Sublist" "HOL-Library.Multiset"
begin

unbundle bit_operations_syntax

section \<open>Python text\<close>

text \<open>
  A Python \<open>str\<close> is a sequence of Unicode code points, so a text is a list of
  natural numbers; \<open>str\<close> turns an ASCII literal into such a list.
\<close>

type_synonym pystr = "nat list"

definition str :: "string \<Rightarrow> pystr" where
  "str s = map of_char s"

text \<open>
  \<open>str.isspace\<close> on one code point. The regular expression class \<open>\s\<close>, \<open>str.strip\<close>
  and \<open>str.isspace\<close> all use this set of 29 code points.
\<close>

definition isspace :: "nat \<Rightarrow> bool" where
  "isspace c \<longleftrightarrow>
     c \<in> set [0x09, 0x0A, 0x0B, 0x0C, 0x0D, 0x1C, 0x1D, 0x1E, 0x1F, 0x20, 0x85, 0xA0,
              0x1680, 0x2028, 0x2029, 0x202F, 0x205F, 0x3000]
     \<or> (0x2000 \<le> c \<and> c \<le> 0x200A)"

text \<open>The line boundaries of \<open>str.splitlines\<close>.\<close>

definition islinebreak :: "nat \<Rightarrow> bool" where
  "islinebreak c \<longleftrightarrow> c \<in> set [0x0A, 0x0B, 0x0C, 0x0D, 0x1C, 0x1D, 0x1E, 0x85, 0x2028, 0x2029]"

text \<open>
  \<open>str.splitlines()\<close>: the text is cut at every line boundary, \<open>\r\n\<close> counts as one
  boundary, the boundaries are dropped, and a text that ends with a boundary has no empty
  last line. \<open>cur\<close> is the line read so far.
\<close>

fun splitlines_from :: "pystr \<Rightarrow> pystr \<Rightarrow> pystr list" where
  "splitlines_from cur [] = (if cur = [] then [] else [cur])"
| "splitlines_from cur (c # cs) =
     (if islinebreak c then
        cur # (case cs of
                 [] \<Rightarrow> splitlines_from [] cs
               | d # ds \<Rightarrow> if c = 0x0D \<and> d = 0x0A then splitlines_from [] ds
                           else splitlines_from [] cs)
      else splitlines_from (cur @ [c]) cs)"

definition splitlines :: "pystr \<Rightarrow> pystr list" where
  "splitlines s = splitlines_from [] s"

definition strip :: "pystr \<Rightarrow> pystr" where
  "strip s = rev (dropWhile isspace (rev (dropWhile isspace s)))"

definition startswith :: "pystr \<Rightarrow> pystr \<Rightarrow> bool" where
  "startswith s p \<longleftrightarrow> prefix p s"

text \<open>\<open>sep.join(xs)\<close>.\<close>

fun join :: "pystr \<Rightarrow> pystr list \<Rightarrow> pystr" where
  "join sep [] = []"
| "join sep [x] = x"
| "join sep (x # y # ys) = x @ sep @ join sep (y # ys)"

text \<open>\<open>sub in s\<close>: plain substring containment.\<close>

definition contains :: "pystr \<Rightarrow> pystr \<Rightarrow> bool" where
  "contains s sub \<longleftrightarrow> sublist sub s"

text \<open>
  The Unicode character database is not part of the program: which code points are
  alphanumeric (\<open>str.isalnum\<close>) and how \<open>str.lower\<close> maps a text are parameters.
  \<open>ascii_ucd\<close> agrees with Python on ASCII text.
\<close>

record ucd =
  isalnum :: "nat \<Rightarrow> bool"
  lower :: "pystr \<Rightarrow> pystr"

definition ascii_ucd :: ucd where
  "ascii_ucd =
     \<lparr> isalnum = (\<lambda>c. (0x30 \<le> c \<and> c \<le> 0x39) \<or> (0x41 \<le> c \<and> c \<le> 0x5A) \<or> (0x61 \<le> c \<and> c \<le> 0x7A)),
       lower = map (\<lambda>c. if 0x41 \<le> c \<and> c \<le> 0x5A then c + 0x20 else c) \<rparr>"

text \<open>In every version of the database, no whitespace character is alphanumeric.\<close>

definition ucd_ok :: "ucd \<Rightarrow> bool" where
  "ucd_ok d \<longleftrightarrow> (\<forall>c. isalnum d c \<longrightarrow> \<not> isspace c)"

section \<open>Regular expressions\<close>

text \<open>
  The fragment of Python's \<open>re\<close> syntax that the program's three patterns use, for
  \<open>str\<close> patterns compiled with \<open>re.MULTILINE\<close>: \<open>^\<close>, literal characters,
  concatenation, \<open>|\<close>, the classes \<open>\s\<close> and \<open>\w\<close> under the greedy repetitions
  \<open>*\<close> and \<open>+\<close>, and capturing groups.
\<close>

datatype cclass = Space | Word

datatype regex =
    Eps
  | Bol
  | Lit nat
  | Cat regex regex
  | Alt regex regex
  | Star cclass
  | Plus cclass
  | Grp nat regex

fun in_class :: "ucd \<Rightarrow> cclass \<Rightarrow> nat \<Rightarrow> bool" where
  "in_class d Space c = isspace c"
| "in_class d Word c = (isalnum d c \<or> c = 0x5F)"

text \<open>The captures of a match: group number, start and end, the latest first.\<close>

type_synonym caps = "(nat \<times> nat \<times> nat) list"

text \<open>
  \<open>rmatch d r s (i, g)\<close> lists every way \<open>r\<close> matches in \<open>s\<close> from position \<open>i\<close>
  (the end position with the captures), in the order a backtracking matcher tries them:
  the left alternative before the right one, the longest repetition first. \<open>^\<close> matches
  at the start of the text and right after a newline.
\<close>

fun rmatch :: "ucd \<Rightarrow> regex \<Rightarrow> pystr \<Rightarrow> nat \<times> caps \<Rightarrow> (nat \<times> caps) list" where
  "rmatch d Eps s (i, g) = [(i, g)]"
| "rmatch d Bol s (i, g) = (if i = 0 \<or> s ! (i - 1) = 0x0A then [(i, g)] else [])"
| "rmatch d (Lit c) s (i, g) = (if i < length s \<and> s ! i = c then [(Suc i, g)] else [])"
| "rmatch d (Cat a b) s m = concat (map (rmatch d b s) (rmatch d a s m))"
| "rmatch d (Alt a b) s m = rmatch d a s m @ rmatch d b s m"
| "rmatch d (Star c) s (i, g) =
     map (\<lambda>k. (i + k, g)) (rev [0..<Suc (length (takeWhile (in_class d c) (drop i s)))])"
| "rmatch d (Plus c) s (i, g) =
     map (\<lambda>k. (i + k, g)) (rev [1..<Suc (length (takeWhile (in_class d c) (drop i s)))])"
| "rmatch d (Grp n r) s (i, g) = map (\<lambda>(j, g'). (j, (n, i, j) # g')) (rmatch d r s (i, g))"

text \<open>
  The search tries the start positions from left to right and takes the first way the
  pattern matches there. With \<open>adv\<close> set, an empty match at the first position is
  refused (the matcher's \<open>must_advance\<close>, set by \<open>re.sub\<close> after an empty match).
\<close>

fun first_match :: "ucd \<Rightarrow> regex \<Rightarrow> pystr \<Rightarrow> bool \<Rightarrow> nat list \<Rightarrow> (nat \<times> nat \<times> caps) option" where
  "first_match d r s adv [] = None"
| "first_match d r s adv (p # ps) =
     (case filter (\<lambda>(e, g). \<not> (adv \<and> e = p)) (rmatch d r s (p, [])) of
        [] \<Rightarrow> first_match d r s False ps
      | (e, g) # _ \<Rightarrow> Some (p, e, g))"

definition re_search_from :: "ucd \<Rightarrow> regex \<Rightarrow> pystr \<Rightarrow> nat \<Rightarrow> bool \<Rightarrow> (nat \<times> nat \<times> caps) option" where
  "re_search_from d r s i adv = first_match d r s adv [i..<Suc (length s)]"

text \<open>\<open>re.search(r, s, re.MULTILINE)\<close>: the start, the end and the captures of the match.\<close>

definition re_search :: "ucd \<Rightarrow> regex \<Rightarrow> pystr \<Rightarrow> (nat \<times> nat \<times> caps) option" where
  "re_search d r s = re_search_from d r s 0 False"

text \<open>\<open>m.group(n)\<close>: \<open>None\<close> when the group took no part in the match.\<close>

definition group :: "pystr \<Rightarrow> caps \<Rightarrow> nat \<Rightarrow> pystr option" where
  "group s g n = (case map_of g n of None \<Rightarrow> None | Some (a, b) \<Rightarrow> Some (take (b - a) (drop a s)))"

lemma rmatch_forward: "(j, g') \<in> set (rmatch d r s (i, g)) \<Longrightarrow> i \<le> j"
proof (induction r arbitrary: i g j g')
  case (Cat a b)
  then obtain k h where "(k, h) \<in> set (rmatch d a s (i, g))" "(j, g') \<in> set (rmatch d b s (k, h))"
    by auto
  with Cat.IH show ?case by (meson le_trans)
qed (auto split: if_splits)

lemma first_match_bounds:
  "first_match d r s adv ps = Some (b, e, g) \<Longrightarrow>
     b \<in> set ps \<and> b \<le> e \<and> (adv \<and> e = b \<longrightarrow> b \<in> set (tl ps))"
proof (induction ps arbitrary: adv)
  case Nil
  then show ?case by simp
next
  case (Cons p ps)
  show ?case
  proof (cases "filter (\<lambda>(e, g). \<not> (adv \<and> e = p)) (rmatch d r s (p, []))")
    case Nil
    with Cons.prems have "first_match d r s False ps = Some (b, e, g)" by simp
    from Cons.IH [OF this] show ?thesis by simp
  next
    case (Cons m ms)
    with Cons.prems have m: "m = (e, g)" "b = p" by (auto split: prod.splits)
    have "m \<in> set (filter (\<lambda>(e, g). \<not> (adv \<and> e = p)) (rmatch d r s (p, [])))"
      using Cons by simp
    with m have "(e, g) \<in> set (rmatch d r s (p, []))" "\<not> (adv \<and> e = p)" by auto
    with m rmatch_forward show ?thesis by fastforce
  qed
qed

lemma re_search_from_bounds:
  assumes "re_search_from d r s i adv = Some (b, e, g)"
  shows "i \<le> b \<and> b \<le> length s \<and> b \<le> e \<and> (adv \<longrightarrow> i < e)"
proof -
  from assms have "first_match d r s adv [i..<Suc (length s)] = Some (b, e, g)"
    by (simp add: re_search_from_def)
  from first_match_bounds [OF this]
  have b: "b \<in> set [i..<Suc (length s)]" "b \<le> e"
    and adv: "adv \<and> e = b \<longrightarrow> b \<in> set (tl [i..<Suc (length s)])"
    by auto
  from b have "i \<le> length s" by auto
  then have "tl [i..<Suc (length s)] = [Suc i..<Suc (length s)]" by (simp add: upt_rec)
  with adv b show ?thesis by auto
qed

text \<open>
  \<open>re.sub(r, repl, s)\<close> for a replacement text without group references: the matches are
  replaced from left to right, each search starting where the last match ended.
\<close>

function re_sub_from :: "ucd \<Rightarrow> regex \<Rightarrow> pystr \<Rightarrow> pystr \<Rightarrow> nat \<Rightarrow> bool \<Rightarrow> pystr" where
  "re_sub_from d r repl s i adv =
     (case re_search_from d r s i adv of
        None \<Rightarrow> drop i s
      | Some (b, e, g) \<Rightarrow> take (b - i) (drop i s) @ repl @ re_sub_from d r repl s e (e = b))"
  by pat_completeness auto
termination
  by (relation "measure (\<lambda>(d, r, repl, s, i, adv). 2 * (Suc (length s) - i) + (if adv then 0 else 1))")
    (auto dest: re_search_from_bounds)

definition re_sub :: "ucd \<Rightarrow> regex \<Rightarrow> pystr \<Rightarrow> pystr \<Rightarrow> pystr" where
  "re_sub d r repl s = re_sub_from d r repl s 0 False"

section \<open>UTF-8 and MD5\<close>

type_synonym byte = "8 word"

text \<open>
  \<open>s.encode('utf-8')\<close>. A surrogate code point has no encoding: Python raises
  \<open>UnicodeEncodeError\<close> there. Code points from \<open>0x110000\<close> on do not occur in a
  Python text.
\<close>

definition utf8_char :: "nat \<Rightarrow> byte list option" where
  "utf8_char c =
     (if c < 0x80 then Some [of_nat c]
      else if c < 0x800 then Some [of_nat (0xC0 + c div 0x40), of_nat (0x80 + c mod 0x40)]
      else if 0xD800 \<le> c \<and> c \<le> 0xDFFF then None
      else if c < 0x10000 then
        Some [of_nat (0xE0 + c div 0x1000), of_nat (0x80 + c div 0x40 mod 0x40),
              of_nat (0x80 + c mod 0x40)]
      else if c < 0x110000 then
        Some [of_nat (0xF0 + c div 0x40000), of_nat (0x80 + c div 0x1000 mod 0x40),
              of_nat (0x80 + c div 0x40 mod 0x40), of_nat (0x80 + c mod 0x40)]
      else None)"

fun encode_utf8 :: "pystr \<Rightarrow> byte list option" where
  "encode_utf8 [] = Some []"
| "encode_utf8 (c # cs) =
     (case utf8_char c of
        None \<Rightarrow> None
      | Some bs \<Rightarrow> (case encode_utf8 cs of None \<Rightarrow> None | Some r \<Rightarrow> Some (bs @ r)))"

text \<open>MD5 as RFC 1321 defines it: \<open>hashlib.md5(data).hexdigest()\<close> is \<open>hexdigest (md5 data)\<close>.\<close>

definition md5_s :: "nat list" where
  "md5_s = [7, 12, 17, 22, 7, 12, 17, 22, 7, 12, 17, 22, 7, 12, 17, 22,
            5, 9, 14, 20, 5, 9, 14, 20, 5, 9, 14, 20, 5, 9, 14, 20,
            4, 11, 16, 23, 4, 11, 16, 23, 4, 11, 16, 23, 4, 11, 16, 23,
            6, 10, 15, 21, 6, 10, 15, 21, 6, 10, 15, 21, 6, 10, 15, 21]"

definition md5_K :: "32 word list" where
  "md5_K = [0xd76aa478, 0xe8c7b756, 0x242070db, 0xc1bdceee,
            0xf57c0faf, 0x4787c62a, 0xa8304613, 0xfd469501,
            0x698098d8, 0x8b44f7af, 0xffff5bb1, 0x895cd7be,
            0x6b901122, 0xfd987193, 0xa679438e, 0x49b40821,
            0xf61e2562, 0xc040b340, 0x265e5a51, 0xe9b6c7aa,
            0xd62f105d, 0x02441453, 0xd8a1e681, 0xe7d3fbc8,
            0x21e1cde6, 0xc33707d6, 0xf4d50d87, 0x455a14ed,
            0xa9e3e905, 0xfcefa3f8, 0x676f02d9, 0x8d2a4c8a,
            0xfffa3942, 0x8771f681, 0x6d9d6122, 0xfde5380c,
            0xa4beea44, 0x4bdecfa9, 0xf6bb4b60, 0xbebfbc70,
            0x289b7ec6, 0xeaa127fa, 0xd4ef3085, 0x04881d05,
            0xd9d4d039, 0xe6db99e5, 0x1fa27cf8, 0xc4ac5665,
            0xf4292244, 0x432aff97, 0xab9423a7, 0xfc93a039,
            0x655b59c3, 0x8f0ccc92, 0xffeff47d, 0x85845dd1,
            0x6fa87e4f, 0xfe2ce6e0, 0xa3014314, 0x4e0811a1,
            0xf7537e82, 0xbd3af235, 0x2ad7d2bb, 0xeb86d391]"

text \<open>The \<open>k\<close> low bytes of a number, the lowest first.\<close>

fun le_bytes :: "nat \<Rightarrow> nat \<Rightarrow> byte list" where
  "le_bytes 0 n = []"
| "le_bytes (Suc k) n = of_nat (n mod 256) # le_bytes k (n div 256)"

text \<open>The four bytes of a word, the lowest first.\<close>

definition word_bytes :: "32 word \<Rightarrow> byte list" where
  "word_bytes w = map (\<lambda>k. ucast (drop_bit (8 * k) w)) [0, 1, 2, 3]"

definition le_word :: "byte list \<Rightarrow> 32 word" where
  "le_word bs = foldr (\<lambda>b w. ucast b + 256 * w) bs 0"

function chunks :: "nat \<Rightarrow> 'a list \<Rightarrow> 'a list list" where
  "chunks n xs = (if n = 0 \<or> xs = [] then [] else take n xs # chunks n (drop n xs))"
  by pat_completeness auto
termination
  by (relation "measure (\<lambda>(n, xs). length xs)") auto

definition md5_pad :: "byte list \<Rightarrow> byte list" where
  "md5_pad m =
     m @ [0x80] @ replicate ((119 - length m mod 64) mod 64) 0 @ le_bytes 8 (8 * length m)"

definition md5_step ::
  "32 word list \<Rightarrow> 32 word \<times> 32 word \<times> 32 word \<times> 32 word \<Rightarrow> nat
     \<Rightarrow> 32 word \<times> 32 word \<times> 32 word \<times> 32 word" where
  "md5_step M st i =
     (case st of (A, B, C, D) \<Rightarrow>
        let F = (if i < 16 then (B AND C) OR (NOT B AND D)
                 else if i < 32 then (D AND B) OR (NOT D AND C)
                 else if i < 48 then B XOR C XOR D
                 else C XOR (B OR NOT D));
            g = (if i < 16 then i
                 else if i < 32 then (5 * i + 1) mod 16
                 else if i < 48 then (3 * i + 5) mod 16
                 else (7 * i) mod 16)
        in (D, B + word_rotl (md5_s ! i) (F + A + md5_K ! i + M ! g), B, C))"

definition md5_block ::
  "32 word \<times> 32 word \<times> 32 word \<times> 32 word \<Rightarrow> byte list
     \<Rightarrow> 32 word \<times> 32 word \<times> 32 word \<times> 32 word" where
  "md5_block st blk =
     (case (st, foldl (md5_step (map le_word (chunks 4 blk))) st [0..<64]) of
        ((a0, b0, c0, d0), (A, B, C, D)) \<Rightarrow> (a0 + A, b0 + B, c0 + C, d0 + D))"

definition md5 :: "byte list \<Rightarrow> byte list" where
  "md5 m =
     (case foldl md5_block (0x67452301, 0xefcdab89, 0x98badcfe, 0x10325476) (chunks 64 (md5_pad m)) of
        (a, b, c, d) \<Rightarrow> concat (map word_bytes [a, b, c, d]))"

definition hexdigit :: "nat \<Rightarrow> nat" where
  "hexdigit n = str ''0123456789abcdef'' ! n"

definition hexdigest :: "byte list \<Rightarrow> pystr" where
  "hexdigest bs = concat (map (\<lambda>b. [hexdigit (unat b div 16), hexdigit (unat b mod 16)]) bs)"

section \<open>The file evaluator\<close>

text \<open>The dictionary \<open>result\<close> of \<open>process_file\<close>; \<open>hash\<close> starts as \<open>None\<close>.\<close>

record result =
  path :: pystr
  filename :: pystr
  hash :: "pystr option"
  severity :: pystr
  skip_keyword :: bool

text \<open>\<open>os.path.basename\<close> and \<open>os.path.join\<close> of two parts, on POSIX paths.\<close>

definition basename :: "pystr \<Rightarrow> pystr" where
  "basename p = rev (takeWhile (\<lambda>c. c \<noteq> 0x2F) (rev p))"

definition path_join :: "pystr \<Rightarrow> pystr \<Rightarrow> pystr" where
  "path_join a b =
     (if startswith b (str ''/'') then b
      else if a = [] \<or> last a = 0x2F then a @ b
      else a @ str ''/'' @ b)"

text \<open>A literal text as a pattern.\<close>

definition lits :: "pystr \<Rightarrow> regex" where
  "lits s = foldr (\<lambda>c r. Cat (Lit c) r) s Eps"

text \<open>\<^verbatim>\<open>^(requests|http):\<close>\<close>

definition req_pattern :: regex where
  "req_pattern = Cat Bol (Cat (Grp 1 (Alt (lits (str ''requests'')) (lits (str ''http'')))) (Lit 0x3A))"

text \<open>\<^verbatim>\<open>^\s*severity:\s*(\w+)\<close>\<close>

definition sev_pattern :: regex where
  "sev_pattern =
     Cat Bol (Cat (Star Space) (Cat (lits (str ''severity:'')) (Cat (Star Space) (Grp 1 (Plus Word)))))"

text \<open>\<^verbatim>\<open>\s+\<close>\<close>

definition ws_pattern :: regex where
  "ws_pattern = Plus Space"

text \<open>
  The two lines that turn the request block into the hashed text: the lines whose
  stripped form starts with \<open>#\<close> are dropped, the others are joined with newlines, and
  every run of whitespace is replaced by the empty text.
\<close>

definition cleaned_lines :: "pystr \<Rightarrow> pystr list" where
  "cleaned_lines request_block_raw =
     filter (\<lambda>line. \<not> startswith (strip line) (str ''#'')) (splitlines request_block_raw)"

definition condensed_content :: "ucd \<Rightarrow> pystr \<Rightarrow> pystr" where
  "condensed_content d request_block_raw =
     re_sub d ws_pattern [] (join (str [CHR 0x0A]) (cleaned_lines request_block_raw))"

definition primary_keywords :: "pystr list" where
  "primary_keywords = map str [''HTTP'', ''GET'', ''POST'', ''PUT'', ''BaseURL'']"

definition secondary_keywords :: "pystr list" where
  "secondary_keywords = map str [''/readme.txt'', ''/style.css'']"

text \<open>The loop over the lines of the file, left at the first line that has both kinds.\<close>

fun skip_keyword_loop :: "pystr list \<Rightarrow> bool" where
  "skip_keyword_loop [] = False"
| "skip_keyword_loop (line # rest) =
     (if list_ex (\<lambda>p_kw. contains line p_kw) primary_keywords
         \<and> list_ex (\<lambda>s_kw. contains line s_kw) secondary_keywords
      then True
      else skip_keyword_loop rest)"

text \<open>
  The body of \<open>process_file\<close> once the file is read. Every exception raised in it is
  caught and turns into the return value \<open>None\<close>: the encoding error of \<open>encode\<close>, and
  the attribute error of \<open>.lower()\<close> on a group that is \<open>None\<close>. The log entry and the
  copy to the error directory do not change the return value.
\<close>

definition process_text :: "ucd \<Rightarrow> pystr \<Rightarrow> pystr \<Rightarrow> result option" where
  "process_text d file_path content =
     (case re_search d req_pattern content of
        None \<Rightarrow> None
      | Some (start, _) \<Rightarrow>
          (case encode_utf8 (condensed_content d (drop start content)) of
             None \<Rightarrow> None
           | Some bytes \<Rightarrow>
               (case (case re_search d sev_pattern content of
                        None \<Rightarrow> Some (str ''unknown'')
                      | Some (_, _, g) \<Rightarrow> map_option (lower d) (group content g 1)) of
                  None \<Rightarrow> None
                | Some sev \<Rightarrow>
                    Some \<lparr> path = file_path,
                           filename = basename file_path,
                           hash = Some (hexdigest (md5 bytes)),
                           severity = sev,
                           skip_keyword = skip_keyword_loop (splitlines content) \<rparr>)))"

text \<open>
  \<open>read_text\<close> is the file system as \<open>process_file\<close> sees it: the decoded text of the
  file, or \<open>None\<close> when opening, reading or decoding it raises.
\<close>

definition process_file :: "ucd \<Rightarrow> (pystr \<Rightarrow> pystr option) \<Rightarrow> pystr \<Rightarrow> result option" where
  "process_file d read_text file_path =
     (case read_text file_path of
        None \<Rightarrow> None
      | Some content \<Rightarrow> process_text d file_path content)"

section \<open>The coordinator\<close>

text \<open>The command line arguments, the five counters, and the state of the drain loop.\<close>

record args =
  source :: pystr
  output_dir :: pystr
  exclude_severity :: "pystr list"
  workers :: int
  collect_errors :: bool

record counters =
  copied :: nat
  duplicate :: nat
  severity_skipped :: nat
  keyword_skipped :: nat
  error :: nat

text \<open>
  \<open>copy2_calls\<close> is the effect of the loop on the file system: the calls
  \<open>shutil.copy2(src, dst)\<close> that returned, in order.
\<close>

record coordinator =
  seen_hashes :: "pystr option set"
  stats :: counters
  copy2_calls :: "(pystr \<times> pystr) list"

text \<open>
  The loop either runs to its end or is left by the exception of a failing
  \<open>shutil.copy2\<close>, which nothing in \<open>main\<close> catches; both carry the state reached.
\<close>

datatype run = Returned coordinator | Raised coordinator

fun state_of :: "run \<Rightarrow> coordinator" where
  "state_of (Returned st) = st"
| "state_of (Raised st) = st"

text \<open>
  One turn of the loop over \<open>as_completed\<close>, for the result of one future. \<open>copy2 src dst\<close>
  tells whether the file system lets that copy succeed.
\<close>

definition drain_step :: "(pystr \<Rightarrow> pystr \<Rightarrow> bool) \<Rightarrow> args \<Rightarrow> coordinator \<Rightarrow> result option \<Rightarrow> run" where
  "drain_step copy2 a st res =
     (case res of
        None \<Rightarrow> Returned (st\<lparr>stats := (stats st)\<lparr>error := error (stats st) + 1\<rparr>\<rparr>)
      | Some r \<Rightarrow>
          if hash r \<in> seen_hashes st then
            Returned (st\<lparr>stats := (stats st)\<lparr>duplicate := duplicate (stats st) + 1\<rparr>\<rparr>)
          else if severity r \<in> set (exclude_severity a) then
            Returned (st\<lparr>stats := (stats st)\<lparr>severity_skipped := severity_skipped (stats st) + 1\<rparr>\<rparr>)
          else if skip_keyword r then
            Returned (st\<lparr>stats := (stats st)\<lparr>keyword_skipped := keyword_skipped (stats st) + 1\<rparr>\<rparr>)
          else
            let st1 = st\<lparr>seen_hashes := insert (hash r) (seen_hashes st)\<rparr>;
                dest_path = path_join (output_dir a) (filename r)
            in if copy2 (path r) dest_path
               then Returned (st1\<lparr>copy2_calls := copy2_calls st1 @ [(path r, dest_path)],
                                  stats := (stats st1)\<lparr>copied := copied (stats st1) + 1\<rparr>\<rparr>)
               else Raised st1)"

fun drain :: "(pystr \<Rightarrow> pystr \<Rightarrow> bool) \<Rightarrow> args \<Rightarrow> coordinator \<Rightarrow> result option list \<Rightarrow> run" where
  "drain copy2 a st [] = Returned st"
| "drain copy2 a st (res # rest) =
     (case drain_step copy2 a st res of
        Raised st' \<Rightarrow> Raised st'
      | Returned st' \<Rightarrow> drain copy2 a st' rest)"

definition initial :: coordinator where
  "initial =
     \<lparr> seen_hashes = {},
       stats = \<lparr> copied = 0, duplicate = 0, severity_skipped = 0, keyword_skipped = 0, error = 0 \<rparr>,
       copy2_calls = [] \<rparr>"

text \<open>
  \<open>main\<close> from the list of files on: \<open>completed\<close> is \<open>all_files\<close> in the order in which
  the futures complete. With no file at all \<open>main\<close> returns before the loop.
\<close>

definition main ::
  "ucd \<Rightarrow> (pystr \<Rightarrow> pystr option) \<Rightarrow> (pystr \<Rightarrow> pystr \<Rightarrow> bool) \<Rightarrow> args \<Rightarrow> pystr list \<Rightarrow> run option" where
  "main d read_text copy2 a completed =
     (if completed = [] then None
      else Some (drain copy2 a initial (map (process_file d read_text) completed)))"

text \<open>A run configuration and results to try the loop on.\<close>

definition args0 :: args where
  "args0 =
     \<lparr> source = str ''pocs'', output_dir = str ''out'', exclude_severity = [str ''info''],
       workers = 4, collect_errors = False \<rparr>"

definition mk_result :: "string \<Rightarrow> string \<Rightarrow> string \<Rightarrow> bool \<Rightarrow> result" where
  "mk_result p h sev kw =
     \<lparr> path = str p, filename = basename (str p), hash = Some (str h), severity = str sev,
       skip_keyword = kw \<rparr>"

definition copy2_ok :: "pystr \<Rightarrow> pystr \<Rightarrow> bool" where
  "copy2_ok src dst = True"

definition copy2_full :: "pystr \<Rightarrow> pystr \<Rightarrow> bool" where
  "copy2_full src dst = False"

section \<open>The five outcomes of a result\<close>

text \<open>
  Claim C1. Each result the loop consumes takes exactly one of five outcomes, tested in
  this order: a failed or skipped evaluation adds one to the error count; a fingerprint
  that has been seen adds one to the duplicate count; a severity in the exclusion list
  adds one to the severity count; a keyword flag adds one to the keyword count; otherwise
  the fingerprint is inserted, the file is copied and the copied count grows by one. In
  the last case a copy that fails leaves the loop with the fingerprint inserted.
\<close>

theorem drain_step_precedence:
  "(res = None \<longrightarrow>
      drain_step copy2 a st res = Returned (st\<lparr>stats := (stats st)\<lparr>error := error (stats st) + 1\<rparr>\<rparr>))
   \<and> (\<forall>r. res = Some r \<and> hash r \<in> seen_hashes st \<longrightarrow>
      drain_step copy2 a st res =
        Returned (st\<lparr>stats := (stats st)\<lparr>duplicate := duplicate (stats st) + 1\<rparr>\<rparr>))
   \<and> (\<forall>r. res = Some r \<and> hash r \<notin> seen_hashes st \<and> severity r \<in> set (exclude_severity a) \<longrightarrow>
      drain_step copy2 a st res =
        Returned (st\<lparr>stats := (stats st)\<lparr>severity_skipped := severity_skipped (stats st) + 1\<rparr>\<rparr>))
   \<and> (\<forall>r. res = Some r \<and> hash r \<notin> seen_hashes st \<and> severity r \<notin> set (exclude_severity a)
          \<and> skip_keyword r \<longrightarrow>
      drain_step copy2 a st res =
        Returned (st\<lparr>stats := (stats st)\<lparr>keyword_skipped := keyword_skipped (stats st) + 1\<rparr>\<rparr>))
   \<and> (\<forall>r. res = Some r \<and> hash r \<notin> seen_hashes st \<and> severity r \<notin> set (exclude_severity a)
          \<and> \<not> skip_keyword r \<and> copy2 (path r) (path_join (output_dir a) (filename r)) \<longrightarrow>
      drain_step copy2 a st res =
        Returned (st\<lparr>seen_hashes := insert (hash r) (seen_hashes st),
                     copy2_calls := copy2_calls st @ [(path r, path_join (output_dir a) (filename r))],
                     stats := (stats st)\<lparr>copied := copied (stats st) + 1\<rparr>\<rparr>))
   \<and> (\<forall>r. res = Some r \<and> hash r \<notin> seen_hashes st \<and> severity r \<notin> set (exclude_severity a)
          \<and> \<not> skip_keyword r \<and> \<not> copy2 (path r) (path_join (output_dir a) (filename r)) \<longrightarrow>
      drain_step copy2 a st res = Raised (st\<lparr>seen_hashes := insert (hash r) (seen_hashes st)\<rparr>))"
  by (simp add: drain_step_def Let_def)

theorem drain_step_precedence_witness:
  "drain_step copy2_ok args0 initial None =
     Returned (initial\<lparr>stats := (stats initial)\<lparr>error := 1\<rparr>\<rparr>)
   \<and> drain_step copy2_ok args0 (initial\<lparr>seen_hashes := {Some (str ''aa'')}\<rparr>)
         (Some (mk_result ''a.yaml'' ''aa'' ''info'' True)) =
     Returned (initial\<lparr>seen_hashes := {Some (str ''aa'')}, stats := (stats initial)\<lparr>duplicate := 1\<rparr>\<rparr>)
   \<and> drain_step copy2_ok args0 initial (Some (mk_result ''a.yaml'' ''aa'' ''info'' True)) =
     Returned (initial\<lparr>stats := (stats initial)\<lparr>severity_skipped := 1\<rparr>\<rparr>)
   \<and> drain_step copy2_ok args0 initial (Some (mk_result ''a.yaml'' ''aa'' ''high'' True)) =
     Returned (initial\<lparr>stats := (stats initial)\<lparr>keyword_skipped := 1\<rparr>\<rparr>)
   \<and> drain_step copy2_ok args0 initial (Some (mk_result ''a.yaml'' ''aa'' ''high'' False)) =
     Returned (initial\<lparr>seen_hashes := {Some (str ''aa'')},
                       copy2_calls := [(str ''a.yaml'', str ''out/a.yaml'')],
                       stats := (stats initial)\<lparr>copied := 1\<rparr>\<rparr>)
   \<and> drain_step copy2_full args0 initial (Some (mk_result ''a.yaml'' ''aa'' ''high'' False)) =
     Raised (initial\<lparr>seen_hashes := {Some (str ''aa'')}\<rparr>)"
  using drain_step_precedence [of None copy2_ok args0 initial]
    drain_step_precedence [of "Some (mk_result ''a.yaml'' ''aa'' ''info'' True)" copy2_ok args0
      "initial\<lparr>seen_hashes := {Some (str ''aa'')}\<rparr>"]
    drain_step_precedence [of "Some (mk_result ''a.yaml'' ''aa'' ''info'' True)" copy2_ok args0 initial]
    drain_step_precedence [of "Some (mk_result ''a.yaml'' ''aa'' ''high'' True)" copy2_ok args0 initial]
    drain_step_precedence [of "Some (mk_result ''a.yaml'' ''aa'' ''high'' False)" copy2_ok args0 initial]
    drain_step_precedence [of "Some (mk_result ''a.yaml'' ''aa'' ''high'' False)" copy2_full args0 initial]
  by (simp add: args0_def mk_result_def initial_def copy2_ok_def copy2_full_def str_def
      path_join_def basename_def startswith_def)

section \<open>What a run copies\<close>

text \<open>
  A result can be kept when neither its severity nor its keyword flag excludes it.
  \<open>survivors a seen rs\<close> are the results that the loop copies when it consumes \<open>rs\<close>
  from a state whose fingerprint set is \<open>seen\<close>, in order.
\<close>


definition keepable :: "args \<Rightarrow> result \<Rightarrow> bool" where
  "keepable a r \<longleftrightarrow> severity r \<notin> set (exclude_severity a) \<and> \<not> skip_keyword r"

fun survivors :: "args \<Rightarrow> pystr option set \<Rightarrow> result option list \<Rightarrow> result list" where
  "survivors a seen [] = []"
| "survivors a seen (None # rest) = survivors a seen rest"
| "survivors a seen (Some r # rest) =
     (if hash r \<notin> seen \<and> keepable a r then r # survivors a (insert (hash r) seen) rest
      else survivors a seen rest)"

lemma drain_step_Returned:
  "drain_step copy2 a st res = Returned st' \<Longrightarrow>
     seen_hashes st' = seen_hashes st \<union> set (map hash (survivors a (seen_hashes st) [res]))
     \<and> copy2_calls st' = copy2_calls st @
         map (\<lambda>r. (path r, path_join (output_dir a) (filename r))) (survivors a (seen_hashes st) [res])
     \<and> copied (stats st') = copied (stats st) + length (survivors a (seen_hashes st) [res])
     \<and> error (stats st') = error (stats st) + length (filter (\<lambda>x. x = None) [res])
     \<and> copied (stats st') + duplicate (stats st') + severity_skipped (stats st')
         + keyword_skipped (stats st') + error (stats st')
       = copied (stats st) + duplicate (stats st) + severity_skipped (stats st)
         + keyword_skipped (stats st) + error (stats st) + 1"
  by (cases res) (auto simp: drain_step_def keepable_def Let_def split: if_splits)

lemma survivors_append:
  "survivors a seen (xs @ ys) =
     survivors a seen xs @ survivors a (seen \<union> set (map hash (survivors a seen xs))) ys"
proof (induction xs arbitrary: seen)
  case Nil then show ?case by simp
next
  case (Cons x xs)
  show ?case
  proof (cases x)
    case None with Cons show ?thesis by simp
  next
    case (Some r)
    show ?thesis using Cons [of "insert (hash r) seen"] Cons [of seen] Some
      by (simp add: insert_absorb)
  qed
qed

lemma drain_Returned:
  "drain copy2 a st rs = Returned st' \<Longrightarrow>
     seen_hashes st' = seen_hashes st \<union> set (map hash (survivors a (seen_hashes st) rs))
     \<and> copy2_calls st' = copy2_calls st @
         map (\<lambda>r. (path r, path_join (output_dir a) (filename r))) (survivors a (seen_hashes st) rs)
     \<and> copied (stats st') = copied (stats st) + length (survivors a (seen_hashes st) rs)
     \<and> error (stats st') = error (stats st) + length (filter (\<lambda>x. x = None) rs)
     \<and> copied (stats st') + duplicate (stats st') + severity_skipped (stats st')
         + keyword_skipped (stats st') + error (stats st')
       = copied (stats st) + duplicate (stats st) + severity_skipped (stats st)
         + keyword_skipped (stats st) + error (stats st) + length rs"
proof (induction rs arbitrary: st)
  case Nil then show ?case by simp
next
  case (Cons x rs)
  from Cons.prems obtain st1 where s1: "drain_step copy2 a st x = Returned st1"
    and d: "drain copy2 a st1 rs = Returned st'"
    by (auto split: run.splits)
  note A = drain_step_Returned [OF s1]
  note B = Cons.IH [OF d]
  have sv: "survivors a (seen_hashes st) (x # rs) =
      survivors a (seen_hashes st) [x] @ survivors a (seen_hashes st1) rs"
    using survivors_append [of a "seen_hashes st" "[x]" rs] A by simp
  show ?case
    unfolding sv using A B by (simp add: Un_assoc)
qed

lemma survivors_sound:
  "r \<in> set (survivors a seen rs) \<Longrightarrow> Some r \<in> set rs \<and> keepable a r \<and> hash r \<notin> seen"
proof (induction a seen rs rule: survivors.induct)
  case (3 a seen x rest)
  show ?case
  proof (cases "hash x \<notin> seen \<and> keepable a x")
    case True
    with "3.prems" have "r = x \<or> r \<in> set (survivors a (insert (hash x) seen) rest)" by simp
    then show ?thesis
    proof
      assume "r = x" with True show ?thesis by simp
    next
      assume "r \<in> set (survivors a (insert (hash x) seen) rest)"
      from "3.IH"(1) [OF True this] show ?thesis by simp
    qed
  next
    case False
    with "3.prems" have "r \<in> set (survivors a seen rest)" by auto
    from "3.IH"(2) [OF False this] show ?thesis by simp
  qed
qed simp_all

lemma survivors_distinct: "distinct (map hash (survivors a seen rs))"
proof (induction a seen rs rule: survivors.induct)
  case (3 a seen x rest)
  show ?case
  proof (cases "hash x \<notin> seen \<and> keepable a x")
    case True
    have "hash x \<notin> hash ` set (survivors a (insert (hash x) seen) rest)"
      using survivors_sound [of _ a "insert (hash x) seen" rest] by fastforce
    with True "3.IH"(1) [OF True] show ?thesis by simp
  next
    case False
    with "3.IH"(2) [OF False] show ?thesis by auto
  qed
qed simp_all

definition keepable_hashes :: "args \<Rightarrow> result option list \<Rightarrow> pystr option set" where
  "keepable_hashes a rs = hash ` {r. Some r \<in> set rs \<and> keepable a r}"

lemma keepable_hashes_simps:
  "keepable_hashes a [] = {}"
  "keepable_hashes a (None # rs) = keepable_hashes a rs"
  "keepable_hashes a (Some r # rs) =
     (if keepable a r then insert (hash r) (keepable_hashes a rs) else keepable_hashes a rs)"
  unfolding keepable_hashes_def by auto

lemma survivors_hashes:
  "hash ` set (survivors a seen rs) = keepable_hashes a rs - seen"
proof (induction a seen rs rule: survivors.induct)
  case (1 a seen) then show ?case by (simp add: keepable_hashes_simps)
next
  case (2 a seen rest) then show ?case by (simp add: keepable_hashes_simps)
next
  case (3 a seen x rest)
  show ?case
  proof (cases "hash x \<notin> seen \<and> keepable a x")
    case True
    from "3.IH"(1) [OF True] True show ?thesis
      by (simp add: keepable_hashes_simps) blast
  next
    case False
    from "3.IH"(2) [OF False] False show ?thesis
      by (simp add: keepable_hashes_simps) blast
  qed
qed

lemma length_survivors:
  "length (survivors a seen rs) = card (keepable_hashes a rs - seen)"
proof -
  have "length (survivors a seen rs) = card (set (map hash (survivors a seen rs)))"
    using survivors_distinct [of a seen rs] by (metis distinct_card length_map)
  then show ?thesis by (simp add: survivors_hashes)
qed

lemma keepable_hashes_perm: "mset rs = mset rs' \<Longrightarrow> keepable_hashes a rs = keepable_hashes a rs'"
  unfolding keepable_hashes_def by (metis set_mset_mset)

lemma process_file_path: "process_file d read_text f = Some r \<Longrightarrow> path r = f"
  by (auto simp: process_file_def process_text_def split: option.splits prod.splits)

lemma drain_step_copies:
  "(src, dst) \<in> set (copy2_calls (state_of (drain_step copy2 a st res))) \<Longrightarrow>
     (src, dst) \<in> set (copy2_calls st) \<or> (\<exists>r. res = Some r \<and> path r = src \<and> keepable a r)"
  by (cases res) (auto simp: drain_step_def keepable_def Let_def split: if_splits)

lemma drain_copies:
  "(src, dst) \<in> set (copy2_calls (state_of (drain copy2 a st rs))) \<Longrightarrow>
     (src, dst) \<in> set (copy2_calls st) \<or> (\<exists>r. Some r \<in> set rs \<and> path r = src \<and> keepable a r)"
proof (induction rs arbitrary: st)
  case Nil then show ?case by simp
next
  case (Cons x rs)
  show ?case
  proof (cases "drain_step copy2 a st x")
    case (Raised st1)
    with Cons.prems have "(src, dst) \<in> set (copy2_calls (state_of (drain_step copy2 a st x)))"
      by simp
    from drain_step_copies [OF this] show ?thesis by auto
  next
    case (Returned st1)
    with Cons.prems have "(src, dst) \<in> set (copy2_calls (state_of (drain copy2 a st1 rs)))"
      by simp
    from Cons.IH [OF this] have
      "(src, dst) \<in> set (copy2_calls st1) \<or> (\<exists>r. Some r \<in> set rs \<and> path r = src \<and> keepable a r)" .
    then show ?thesis
    proof
      assume "(src, dst) \<in> set (copy2_calls st1)"
      with Returned have "(src, dst) \<in> set (copy2_calls (state_of (drain_step copy2 a st x)))"
        by simp
      from drain_step_copies [OF this] show ?thesis by auto
    next
      assume "\<exists>r. Some r \<in> set rs \<and> path r = src \<and> keepable a r"
      then show ?thesis by auto
    qed
  qed
qed

text \<open>The evaluator on the smallest template, the text \<open>http:\<close>.\<close>


lemma str_http: "str ''http:'' = [104, 116, 116, 112, 58]"
  by (simp add: str_def)

lemma req_http: "re_search d req_pattern [104, 116, 116, 112, 58] = Some (0, 5, [(1, 0, 4)])"
  by (simp add: re_search_def re_search_from_def req_pattern_def lits_def str_def upt_rec)

lemma sev_http: "re_search d sev_pattern [104, 116, 116, 112, 58] = None"
  by (simp add: re_search_def re_search_from_def sev_pattern_def lits_def str_def upt_rec isspace_def)

lemma lines_http: "splitlines [104, 116, 116, 112, 58] = [[104, 116, 116, 112, 58]]"
  by (simp add: splitlines_def islinebreak_def)

lemma kw_http: "skip_keyword_loop [[104, 116, 116, 112, 58]] = False"
  by (simp add: primary_keywords_def secondary_keywords_def contains_def str_def sublist_code)

lemma cond_http: "condensed_content d [104, 116, 116, 112, 58] = [104, 116, 116, 112, 58]"
  by (simp add: condensed_content_def cleaned_lines_def lines_http strip_def startswith_def str_def
      isspace_def re_sub_def ws_pattern_def re_search_from_def upt_rec)

definition poc_plain :: pystr where
  "poc_plain = str ''http:''"

definition fs_plain :: "pystr \<Rightarrow> pystr option" where
  "fs_plain p = Some poc_plain"

definition args_unknown :: args where
  "args_unknown = args0\<lparr>exclude_severity := [str ''unknown'']\<rparr>"

lemma utf8_http: "encode_utf8 [104, 116, 116, 112, 58] = Some [104, 116, 116, 112, 58]"
  by (simp add: utf8_char_def)

lemma process_plain:
  "process_file d fs_plain p =
     Some \<lparr> path = p, filename = basename p,
            hash = Some (hexdigest (md5 [104, 116, 116, 112, 58])),
            severity = str ''unknown'', skip_keyword = False \<rparr>"
  by (simp add: process_file_def fs_plain_def poc_plain_def process_text_def str_http req_http
      sev_http lines_http kw_http cond_http utf8_http
      del: skip_keyword_loop.simps encode_utf8.simps)

section \<open>Excluded severities\<close>

text \<open>
  Claim C5. A file whose severity is in the list of excluded severities is never copied,
  wherever it stands in the order of completion and in its group of duplicates: no call
  of \<open>shutil.copy2\<close> of the run has it as source, and the turn of the loop that consumes
  its result leaves the fingerprint set and the copies as they were.
\<close>

theorem excluded_severity_never_copied:
  assumes "main d read_text copy2 a completed = Some run"
    and "process_file d read_text f = Some r"
    and "severity r \<in> set (exclude_severity a)"
  shows "f \<notin> fst ` set (copy2_calls (state_of run))
     \<and> seen_hashes (state_of (drain_step copy2 a st (Some r))) = seen_hashes st
     \<and> copy2_calls (state_of (drain_step copy2 a st (Some r))) = copy2_calls st"
proof -
  have "f \<notin> fst ` set (copy2_calls (state_of run))"
  proof
    assume "f \<in> fst ` set (copy2_calls (state_of run))"
    then obtain dst where c: "(f, dst) \<in> set (copy2_calls (state_of run))" by auto
    from assms(1) have run: "run = drain copy2 a initial (map (process_file d read_text) completed)"
      by (auto simp: main_def split: if_splits)
    from drain_copies [OF c [unfolded run]]
    obtain r' where r': "Some r' \<in> set (map (process_file d read_text) completed)"
      "path r' = f" "keepable a r'"
      by (auto simp: initial_def)
    from r'(1) obtain f' where "process_file d read_text f' = Some r'" by auto
    with process_file_path [of d read_text f' r'] r'(2) have "process_file d read_text f = Some r'"
      by simp
    with assms(2) have "r' = r" by simp
    with r'(3) assms(3) show False by (simp add: keepable_def)
  qed
  moreover from assms(3) have
    "seen_hashes (state_of (drain_step copy2 a st (Some r))) = seen_hashes st"
    "copy2_calls (state_of (drain_step copy2 a st (Some r))) = copy2_calls st"
    by (simp_all add: drain_step_def)
  ultimately show ?thesis by simp
qed

theorem excluded_severity_never_copied_witness:
  "str ''a.yaml'' \<notin>
     fst ` set (copy2_calls (state_of (the (main ascii_ucd fs_plain copy2_ok args_unknown [str ''a.yaml'']))))
   \<and> seen_hashes (state_of (drain_step copy2_ok args_unknown initial
        (process_file ascii_ucd fs_plain (str ''a.yaml'')))) = seen_hashes initial
   \<and> copy2_calls (state_of (drain_step copy2_ok args_unknown initial
        (process_file ascii_ucd fs_plain (str ''a.yaml'')))) = copy2_calls initial"
proof -
  have m: "main ascii_ucd fs_plain copy2_ok args_unknown [str ''a.yaml''] =
      Some (the (main ascii_ucd fs_plain copy2_ok args_unknown [str ''a.yaml'']))"
    by (simp add: main_def)
  note p = process_plain [of ascii_ucd "str ''a.yaml''"]
  have s: "severity \<lparr> path = str ''a.yaml'', filename = basename (str ''a.yaml''),
            hash = Some (hexdigest (md5 [104, 116, 116, 112, 58])),
            severity = str ''unknown'', skip_keyword = False \<rparr> \<in> set (exclude_severity args_unknown)"
    by (simp add: args_unknown_def)
  from excluded_severity_never_copied [OF m p s, of initial] show ?thesis
    by (simp add: p)
qed

section \<open>Duplicate groups and the order of completion\<close>

definition copied_members ::
  "ucd \<Rightarrow> (pystr \<Rightarrow> pystr option) \<Rightarrow> coordinator \<Rightarrow> pystr list \<Rightarrow> pystr option \<Rightarrow> pystr list" where
  "copied_members d read_text st completed h =
     filter (\<lambda>f. map_option hash (process_file d read_text f) = Some h
                 \<and> f \<in> fst ` set (copy2_calls st)) completed"

lemma main_Returned:
  assumes "main d read_text copy2 a completed = Some (Returned st)"
  shows "seen_hashes st = keepable_hashes a (map (process_file d read_text) completed)"
    and "copy2_calls st = map (\<lambda>r. (path r, path_join (output_dir a) (filename r)))
          (survivors a {} (map (process_file d read_text) completed))"
    and "copied (stats st) = card (keepable_hashes a (map (process_file d read_text) completed))"
    and "error (stats st) = length (filter (\<lambda>x. x = None) (map (process_file d read_text) completed))"
    and "copied (stats st) + duplicate (stats st) + severity_skipped (stats st)
          + keyword_skipped (stats st) + error (stats st) = length completed"
proof -
  from assms have "drain copy2 a initial (map (process_file d read_text) completed) = Returned st"
    by (auto simp: main_def split: if_splits)
  note D = drain_Returned [OF this]
  have i: "seen_hashes initial = {}" "copy2_calls initial = []" "copied (stats initial) = 0"
    "duplicate (stats initial) = 0" "severity_skipped (stats initial) = 0"
    "keyword_skipped (stats initial) = 0" "error (stats initial) = 0"
    by (simp_all add: initial_def)
  show "seen_hashes st = keepable_hashes a (map (process_file d read_text) completed)"
    using D i survivors_hashes [of a "{}"] by simp
  show "copy2_calls st = map (\<lambda>r. (path r, path_join (output_dir a) (filename r)))
          (survivors a {} (map (process_file d read_text) completed))"
    using D i by simp
  show "copied (stats st) = card (keepable_hashes a (map (process_file d read_text) completed))"
    using D i length_survivors [of a "{}"] by simp
  show "error (stats st) = length (filter (\<lambda>x. x = None) (map (process_file d read_text) completed))"
    using D i by simp
  show "copied (stats st) + duplicate (stats st) + severity_skipped (stats st)
          + keyword_skipped (stats st) + error (stats st) = length completed"
    using D i by simp
qed

lemma length_filter_perm: "mset xs = mset ys \<Longrightarrow> length (filter P xs) = length (filter P ys)"
  by (metis mset_filter size_mset)

text \<open>
  Claim C8, as far as it holds. Two runs over the same files that differ in the order of
  completion (which is all the number of workers can change) and that both reach the
  report agree on the copied count, on the error count, on the sum of the duplicate,
  severity and keyword counts, and on the set of fingerprints seen. How that sum splits
  into its three counts depends on the order, see \<open>counts_depend_on_order\<close>.
\<close>

theorem counts_under_reordering:
  assumes "mset completed = mset completed'"
    and "main d read_text copy2 a completed = Some (Returned st)"
    and "main d read_text copy2 a completed' = Some (Returned st')"
  shows "copied (stats st) = copied (stats st')
     \<and> error (stats st) = error (stats st')
     \<and> duplicate (stats st) + severity_skipped (stats st) + keyword_skipped (stats st)
       = duplicate (stats st') + severity_skipped (stats st') + keyword_skipped (stats st')
     \<and> seen_hashes st = seen_hashes st'"
proof -
  let ?rs = "map (process_file d read_text) completed"
  let ?rs' = "map (process_file d read_text) completed'"
  from assms(1) have m: "mset ?rs = mset ?rs'" by (metis mset_map)
  then have k: "keepable_hashes a ?rs = keepable_hashes a ?rs'" by (rule keepable_hashes_perm)
  from assms(1) have l: "length completed = length completed'" by (rule mset_eq_length)
  note A = main_Returned [OF assms(2)]
  note B = main_Returned [OF assms(3)]
  have c: "copied (stats st) = copied (stats st')" using A(3) B(3) k by simp
  have e: "error (stats st) = error (stats st')"
    using A(4) B(4) length_filter_perm [OF m] by simp
  have s: "seen_hashes st = seen_hashes st'" using A(1) B(1) k by simp
  from A(5) B(5) l c e show ?thesis using s by simp
qed

definition poc_info :: pystr where
  "poc_info = str ''severity: info'' @ [10] @ str ''http:''"

definition fs_pair :: "pystr \<Rightarrow> pystr option" where
  "fs_pair p = (if p = str ''a.yaml'' then Some poc_info else Some poc_plain)"

lemma poc_info_eq:
  "poc_info = [115, 101, 118, 101, 114, 105, 116, 121, 58, 32, 105, 110, 102, 111, 10,
               104, 116, 116, 112, 58]"
  by (simp add: poc_info_def str_def)

lemma req_info:
  "re_search d req_pattern [115, 101, 118, 101, 114, 105, 116, 121, 58, 32, 105, 110, 102, 111, 10,
               104, 116, 116, 112, 58] = Some (15, 20, [(1, 15, 19)])"
  by (simp add: re_search_def re_search_from_def req_pattern_def lits_def str_def upt_rec)

lemma sev_info:
  "re_search ascii_ucd sev_pattern [115, 101, 118, 101, 114, 105, 116, 121, 58, 32, 105, 110, 102, 111, 10,
               104, 116, 116, 112, 58] = Some (0, 14, [(1, 10, 14)])"
  by (simp add: re_search_def re_search_from_def sev_pattern_def lits_def str_def upt_rec
      isspace_def ascii_ucd_def)

lemma lines_info:
  "splitlines [115, 101, 118, 101, 114, 105, 116, 121, 58, 32, 105, 110, 102, 111, 10,
               104, 116, 116, 112, 58] =
     [[115, 101, 118, 101, 114, 105, 116, 121, 58, 32, 105, 110, 102, 111], [104, 116, 116, 112, 58]]"
  by (simp add: splitlines_def islinebreak_def)

lemma kw_info:
  "skip_keyword_loop
     [[115, 101, 118, 101, 114, 105, 116, 121, 58, 32, 105, 110, 102, 111], [104, 116, 116, 112, 58]]
   = False"
  by (simp add: primary_keywords_def secondary_keywords_def contains_def str_def sublist_code)

lemma lower_info: "lower ascii_ucd [105, 110, 102, 111] = [105, 110, 102, 111]"
  by (simp add: ascii_ucd_def)

lemma process_info:
  "process_file ascii_ucd fs_pair (str ''a.yaml'') =
     Some \<lparr> path = str ''a.yaml'', filename = basename (str ''a.yaml''),
            hash = Some (hexdigest (md5 [104, 116, 116, 112, 58])),
            severity = str ''info'', skip_keyword = False \<rparr>"
proof -
  have i: "str ''info'' = [105, 110, 102, 111]" by (simp add: str_def)
  have "fs_pair (str ''a.yaml'') = Some [115, 101, 118, 101, 114, 105, 116, 121, 58, 32, 105, 110,
      102, 111, 10, 104, 116, 116, 112, 58]"
    by (simp add: fs_pair_def poc_info_eq)
  then show ?thesis
    by (simp add: process_file_def process_text_def req_info sev_info lines_info kw_info
        cond_http utf8_http group_def lower_info i
        del: skip_keyword_loop.simps encode_utf8.simps)
qed

lemma process_pair_b:
  "process_file ascii_ucd fs_pair (str ''b.yaml'') =
     Some \<lparr> path = str ''b.yaml'', filename = basename (str ''b.yaml''),
            hash = Some (hexdigest (md5 [104, 116, 116, 112, 58])),
            severity = str ''unknown'', skip_keyword = False \<rparr>"
proof -
  have "fs_pair (str ''b.yaml'') = fs_plain (str ''b.yaml'')"
    by (simp add: fs_pair_def fs_plain_def str_def)
  then have "process_file ascii_ucd fs_pair (str ''b.yaml'') = process_file ascii_ucd fs_plain (str ''b.yaml'')"
    by (simp add: process_file_def)
  then show ?thesis by (simp add: process_plain)
qed

text \<open>
  Two files with the same fingerprint, \<open>a.yaml\<close> of severity \<open>info\<close> and \<open>b.yaml\<close> of no
  severity, under the default exclusion list: consumed in the order a, b the run counts
  one severity exclusion and no duplicate, in the order b, a one duplicate and no
  severity exclusion.
\<close>

theorem counts_depend_on_order:
  "mset [str ''a.yaml'', str ''b.yaml''] = mset [str ''b.yaml'', str ''a.yaml'']
   \<and> map_option (\<lambda>run. stats (state_of run))
       (main ascii_ucd fs_pair copy2_ok args0 [str ''a.yaml'', str ''b.yaml'']) =
     Some \<lparr> copied = 1, duplicate = 0, severity_skipped = 1, keyword_skipped = 0, error = 0 \<rparr>
   \<and> map_option (\<lambda>run. stats (state_of run))
       (main ascii_ucd fs_pair copy2_ok args0 [str ''b.yaml'', str ''a.yaml'']) =
     Some \<lparr> copied = 1, duplicate = 1, severity_skipped = 0, keyword_skipped = 0, error = 0 \<rparr>"
  by (simp add: main_def process_info process_pair_b drain_step_def initial_def args0_def
      copy2_ok_def Let_def) (simp add: str_def)

lemma copied_members_set:
  assumes "main d read_text copy2 a completed = Some (Returned st)"
  shows "set (copied_members d read_text st completed h) =
     path ` {r \<in> set (survivors a {} (map (process_file d read_text) completed)). hash r = h}"
    (is "?M = path ` ?A")
proof -
  let ?S = "survivors a {} (map (process_file d read_text) completed)"
  have cp: "fst ` set (copy2_calls st) = path ` set ?S"
    using main_Returned(2) [OF assms] by (auto simp: image_iff) 
  have src: "\<And>r. r \<in> set ?S \<Longrightarrow> path r \<in> set completed \<and> process_file d read_text (path r) = Some r"
  proof -
    fix r assume "r \<in> set ?S"
    then have "Some r \<in> set (map (process_file d read_text) completed)"
      using survivors_sound by blast
    then obtain f where f: "f \<in> set completed" "process_file d read_text f = Some r" by auto
    with process_file_path [OF f(2)] show "path r \<in> set completed \<and> process_file d read_text (path r) = Some r"
      by simp
  qed
  show ?thesis
  proof (rule set_eqI, rule iffI)
    fix f assume "f \<in> ?M"
    then have f: "f \<in> set completed" "map_option hash (process_file d read_text f) = Some h"
      "f \<in> path ` set ?S"
      by (auto simp: copied_members_def cp)
    from f(3) obtain r where r: "r \<in> set ?S" "f = path r" by auto
    with src [OF r(1)] f(2) have "hash r = h" by simp
    with r show "f \<in> path ` ?A" by auto
  next
    fix f assume "f \<in> path ` ?A"
    then obtain r where r: "r \<in> set ?S" "hash r = h" "f = path r" by auto
    with src [OF r(1)] show "f \<in> ?M"
      by (auto simp: copied_members_def cp)
  qed
qed

lemma group_survivors:
  "{r \<in> set (survivors a seen rs). hash r = h} = {} \<and> h \<notin> keepable_hashes a rs - seen
   \<or> (\<exists>r0. {r \<in> set (survivors a seen rs). hash r = h} = {r0} \<and> h \<in> keepable_hashes a rs - seen)"
proof (cases "h \<in> hash ` set (survivors a seen rs)")
  case False
  then show ?thesis using survivors_hashes [of a seen rs] by auto
next
  case True
  then obtain r0 where r0: "r0 \<in> set (survivors a seen rs)" "hash r0 = h" by auto
  have inj: "inj_on hash (set (survivors a seen rs))"
    using survivors_distinct [of a seen rs] by (simp add: distinct_map)
  have "{r \<in> set (survivors a seen rs). hash r = h} = {r0}"
  proof (rule set_eqI, rule iffI)
    fix r assume "r \<in> {r \<in> set (survivors a seen rs). hash r = h}"
    then have "r \<in> set (survivors a seen rs)" "hash r = hash r0" using r0 by auto
    with inj r0(1) have "r = r0" by (auto dest: inj_onD)
    then show "r \<in> {r0}" by simp
  next
    fix r assume "r \<in> {r0}" with r0 show "r \<in> {r \<in> set (survivors a seen rs). hash r = h}" by simp
  qed
  moreover from True have "h \<in> keepable_hashes a rs - seen" using survivors_hashes [of a seen rs] by simp
  ultimately show ?thesis by blast
qed

text \<open>
  Claim C4, as far as it holds. In a run over distinct files that reaches the report,
  the members of a duplicate group that are copied are exactly one when some member of
  the group can be kept (its severity is not excluded and its keyword flag is not set),
  and none otherwise, whatever the order of completion. The fingerprints seen at the end
  are those of the groups with such a member, and a turn of the loop changes the set of
  fingerprints only by inserting the fingerprint, not yet in the set, of the result it
  copies.
\<close>

theorem one_copy_per_kept_group:
  assumes "distinct completed"
    and "main d read_text copy2 a completed = Some (Returned st)"
  shows "length (copied_members d read_text st completed h) =
       (if h \<in> keepable_hashes a (map (process_file d read_text) completed) then 1 else 0)
     \<and> seen_hashes st = keepable_hashes a (map (process_file d read_text) completed)
     \<and> (seen_hashes (state_of (drain_step copy2 a st0 res)) = seen_hashes st0
        \<or> (\<exists>r. res = Some r \<and> hash r \<notin> seen_hashes st0 \<and> keepable a r
              \<and> seen_hashes (state_of (drain_step copy2 a st0 res)) = insert (hash r) (seen_hashes st0)))"
proof -
  let ?rs = "map (process_file d read_text) completed"
  have d: "distinct (copied_members d read_text st completed h)"
    using assms(1) by (simp add: copied_members_def)
  then have "length (copied_members d read_text st completed h) =
      card (set (copied_members d read_text st completed h))"
    by (simp add: distinct_card)
  also have "\<dots> = card (path ` {r \<in> set (survivors a {} ?rs). hash r = h})"
    by (simp add: copied_members_set [OF assms(2)])
  also have "\<dots> = (if h \<in> keepable_hashes a ?rs then 1 else 0)"
    using group_survivors [of a "{}" ?rs h] by auto
  finally have 1: "length (copied_members d read_text st completed h) =
       (if h \<in> keepable_hashes a ?rs then 1 else 0)" .
  have 3: "seen_hashes (state_of (drain_step copy2 a st0 res)) = seen_hashes st0
        \<or> (\<exists>r. res = Some r \<and> hash r \<notin> seen_hashes st0 \<and> keepable a r
              \<and> seen_hashes (state_of (drain_step copy2 a st0 res)) = insert (hash r) (seen_hashes st0))"
    by (cases res) (auto simp: drain_step_def keepable_def Let_def)
  from 1 main_Returned(1) [OF assms(2)] 3 show ?thesis by blast
qed

lemma main_pair_ab:
  "main ascii_ucd fs_pair copy2_ok args0 [str ''a.yaml'', str ''b.yaml''] =
     Some (Returned \<lparr> seen_hashes = {Some (hexdigest (md5 [104, 116, 116, 112, 58]))},
       stats = \<lparr> copied = 1, duplicate = 0, severity_skipped = 1, keyword_skipped = 0, error = 0 \<rparr>,
       copy2_calls = [(str ''b.yaml'', str ''out/b.yaml'')] \<rparr>)"
  by (simp add: main_def process_info process_pair_b drain_step_def initial_def args0_def
      copy2_ok_def Let_def path_join_def startswith_def basename_def) (simp add: str_def)

lemma main_pair_ba:
  "main ascii_ucd fs_pair copy2_ok args0 [str ''b.yaml'', str ''a.yaml''] =
     Some (Returned \<lparr> seen_hashes = {Some (hexdigest (md5 [104, 116, 116, 112, 58]))},
       stats = \<lparr> copied = 1, duplicate = 1, severity_skipped = 0, keyword_skipped = 0, error = 0 \<rparr>,
       copy2_calls = [(str ''b.yaml'', str ''out/b.yaml'')] \<rparr>)"
  by (simp add: main_def process_info process_pair_b drain_step_def initial_def args0_def
      copy2_ok_def Let_def path_join_def startswith_def basename_def) (simp add: str_def)

lemma main_plain_excluded:
  "main ascii_ucd fs_plain copy2_ok args_unknown [str ''a.yaml''] =
     Some (Returned \<lparr> seen_hashes = {},
       stats = \<lparr> copied = 0, duplicate = 0, severity_skipped = 1, keyword_skipped = 0, error = 0 \<rparr>,
       copy2_calls = [] \<rparr>)"
  by (simp add: main_def process_plain drain_step_def initial_def args_unknown_def args0_def)

theorem counts_under_reordering_witness:
  "copied (stats (state_of (the (main ascii_ucd fs_pair copy2_ok args0 [str ''a.yaml'', str ''b.yaml''])))) =
     copied (stats (state_of (the (main ascii_ucd fs_pair copy2_ok args0 [str ''b.yaml'', str ''a.yaml'']))))
   \<and> error (stats (state_of (the (main ascii_ucd fs_pair copy2_ok args0 [str ''a.yaml'', str ''b.yaml''])))) =
     error (stats (state_of (the (main ascii_ucd fs_pair copy2_ok args0 [str ''b.yaml'', str ''a.yaml'']))))
   \<and> seen_hashes (state_of (the (main ascii_ucd fs_pair copy2_ok args0 [str ''a.yaml'', str ''b.yaml'']))) =
     seen_hashes (state_of (the (main ascii_ucd fs_pair copy2_ok args0 [str ''b.yaml'', str ''a.yaml''])))"
proof -
  have p: "mset [str ''a.yaml'', str ''b.yaml''] = mset [str ''b.yaml'', str ''a.yaml'']"
    by simp
  from counts_under_reordering [OF p main_pair_ab main_pair_ba] show ?thesis
    by (simp add: main_pair_ab main_pair_ba)
qed

text \<open>
  A group whose only member has an excluded severity: the run copies no member of it.
\<close>

theorem excluded_group_has_no_copy:
  "distinct [str ''a.yaml'']
   \<and> map_option hash (process_file ascii_ucd fs_plain (str ''a.yaml'')) =
       Some (Some (hexdigest (md5 [104, 116, 116, 112, 58])))
   \<and> map_option (\<lambda>run. copied_members ascii_ucd fs_plain (state_of run) [str ''a.yaml'']
         (Some (hexdigest (md5 [104, 116, 116, 112, 58]))))
       (main ascii_ucd fs_plain copy2_ok args_unknown [str ''a.yaml'']) = Some []"
  by (simp add: main_plain_excluded process_plain copied_members_def)

theorem one_copy_per_kept_group_witness:
  "length (copied_members ascii_ucd fs_pair
       (state_of (the (main ascii_ucd fs_pair copy2_ok args0 [str ''a.yaml'', str ''b.yaml''])))
       [str ''a.yaml'', str ''b.yaml''] (Some (hexdigest (md5 [104, 116, 116, 112, 58])))) = 1
   \<and> seen_hashes (state_of (the (main ascii_ucd fs_pair copy2_ok args0 [str ''a.yaml'', str ''b.yaml''])))
       = {Some (hexdigest (md5 [104, 116, 116, 112, 58]))}"
proof -
  have d: "distinct [str ''a.yaml'', str ''b.yaml'']" by (simp add: str_def)
  have k: "keepable_hashes args0
      [process_file ascii_ucd fs_pair (str ''a.yaml''), process_file ascii_ucd fs_pair (str ''b.yaml'')]
      = {Some (hexdigest (md5 [104, 116, 116, 112, 58]))}"
    by (simp add: process_info process_pair_b keepable_hashes_simps keepable_def args0_def)
      (simp add: str_def)
  from one_copy_per_kept_group [OF d main_pair_ab,
      of "Some (hexdigest (md5 [104, 116, 116, 112, 58]))" initial None]
  have "length (copied_members ascii_ucd fs_pair
       \<lparr> seen_hashes = {Some (hexdigest (md5 [104, 116, 116, 112, 58]))},
         stats = \<lparr> copied = 1, duplicate = 0, severity_skipped = 1, keyword_skipped = 0, error = 0 \<rparr>,
         copy2_calls = [(str ''b.yaml'', str ''out/b.yaml'')] \<rparr>
       [str ''a.yaml'', str ''b.yaml''] (Some (hexdigest (md5 [104, 116, 116, 112, 58])))) = 1"
    by (simp add: k)
  then show ?thesis by (simp add: main_pair_ab)
qed

section \<open>The fingerprint of a result\<close>

lemma length_md5: "length (md5 m) = 16"
proof -
  obtain a b c e where
    "foldl md5_block (0x67452301, 0xefcdab89, 0x98badcfe, 0x10325476) (chunks 64 (md5_pad m)) = (a, b, c, e)"
    using prod_cases4 by blast
  then show ?thesis
    unfolding md5_def by (simp add: word_bytes_def del: chunks.simps)
qed

lemma length_hexdigest: "length (hexdigest bs) = 2 * length bs"
  by (induction bs) (simp_all add: hexdigest_def)

lemma hexdigit_lower_hex: "n < 16 \<Longrightarrow> hexdigit n \<in> set (str ''0123456789abcdef'')"
proof -
  assume "n < 16"
  then have "n < length (str ''0123456789abcdef'')" by (simp add: str_def)
  then show ?thesis unfolding hexdigit_def by (rule nth_mem)
qed

lemma hexdigest_lower_hex: "list_all (\<lambda>c. c \<in> set (str ''0123456789abcdef'')) (hexdigest bs)"
proof -
  have "unat b div 16 < 16" "unat b mod 16 < 16" for b :: byte
    using unsigned_less [of b, where 'a = nat] by (simp_all add: less_mult_imp_div_less)
  then show ?thesis
    by (simp add: hexdigest_def list_all_iff hexdigit_lower_hex)
qed

text \<open>
  Claim C10. Every result that \<open>process_file\<close> returns carries a fingerprint: the
  field \<open>hash\<close> is never \<open>None\<close> there, it is the hexadecimal MD5 digest of the
  encoded condensed request block, 32 characters long, each one of \<open>0123456789abcdef\<close>.
  A returned result also means that the request pattern matched, since a text without a
  match makes \<open>process_file\<close> return \<open>None\<close> before a result is built.
\<close>

theorem hash_always_md5_hexdigest:
  assumes "process_file d read_text f = Some r"
  shows "\<exists>h content start end g bytes.
           hash r = Some h \<and> length h = 32
         \<and> list_all (\<lambda>c. c \<in> set (str ''0123456789abcdef'')) h
         \<and> read_text f = Some content
         \<and> re_search d req_pattern content = Some (start, end, g)
         \<and> encode_utf8 (condensed_content d (drop start content)) = Some bytes
         \<and> h = hexdigest (md5 bytes)"
  using assms
  by (auto simp: process_file_def process_text_def length_hexdigest length_md5 hexdigest_lower_hex
      simp del: chunks.simps split: option.splits prod.splits)

theorem hash_always_md5_hexdigest_witness:
  "hash (the (process_file ascii_ucd fs_plain (str ''a.yaml''))) =
     Some (hexdigest (md5 [104, 116, 116, 112, 58]))
   \<and> length (the (hash (the (process_file ascii_ucd fs_plain (str ''a.yaml''))))) = 32
   \<and> list_all (\<lambda>c. c \<in> set (str ''0123456789abcdef''))
       (the (hash (the (process_file ascii_ucd fs_plain (str ''a.yaml'')))))"
  using hash_always_md5_hexdigest [OF process_plain [of ascii_ucd "str ''a.yaml''"]]
  by (auto simp: process_plain)

end
